theory Spec2Isabelle
  imports Main "HOL-Library.Char_ord" "HOL-Library.List_Lexorder"
begin

section \<open>Text as a sequence of Unicode code points\<close>

text \<open>
  A Python \<open>str\<close> is a sequence of Unicode code points; \<open>len\<close>, iteration, slicing,
  \<open>startswith\<close> and \<open>replace\<close> all work on code points. The Arabic block lies beyond
  one byte, so a text is a list of code points (natural numbers), written in hexadecimal
  as the source writes its escapes.
\<close>

type_synonym codepoint = nat
type_synonym str = "codepoint list"

section \<open>LetterCounter (domain/services/letter\_counter.py)\<close>

datatype LetterCountMethod = TRADITIONAL | UTHMANI_FULL | NO_WASLA

definition ARABIC_LETTERS :: "codepoint list" where
  "ARABIC_LETTERS =
     [0x0627, 0x0628, 0x062A, 0x062B, 0x062C, 0x062D, 0x062E, 0x062F, 0x0630, 0x0631,
      0x0632, 0x0633, 0x0634, 0x0635, 0x0636, 0x0637, 0x0638, 0x0639, 0x063A, 0x0641,
      0x0642, 0x0643, 0x0644, 0x0645, 0x0646, 0x0647, 0x0648, 0x064A]
     @ [0x0621, 0x0622, 0x0623, 0x0624, 0x0625, 0x0626, 0x0649]"

definition ALIF_WASLA :: codepoint where
  "ALIF_WASLA = 0x0671"

definition ALIF_KHANJARIYYA :: codepoint where
  "ALIF_KHANJARIYYA = 0x0670"

definition COUNTABLE_SPECIAL :: "codepoint list" where
  "COUNTABLE_SPECIAL = [ALIF_WASLA, ALIF_KHANJARIYYA]"

text \<open>The table of default rules per method: (include wasla, include khanjariyya).\<close>

definition method_rules :: "(LetterCountMethod \<times> bool \<times> bool) list" where
  "method_rules =
     [(TRADITIONAL, (True, False)),
      (UTHMANI_FULL, (True, True)),
      (NO_WASLA, (False, False))]"

definition get_counting_rules ::
  "LetterCountMethod \<Rightarrow> bool option \<Rightarrow> bool option \<Rightarrow> bool \<times> bool" where
  "get_counting_rules method wasla_override khanjariyya_override =
     (let (include_wasla, include_khanjariyya) =
            (case map_of method_rules method of Some r \<Rightarrow> r | None \<Rightarrow> (True, False));
          include_wasla =
            (case wasla_override of Some b \<Rightarrow> b | None \<Rightarrow> include_wasla);
          include_khanjariyya =
            (case khanjariyya_override of Some b \<Rightarrow> b | None \<Rightarrow> include_khanjariyya)
      in (include_wasla, include_khanjariyya))"

text \<open>The body of the \<open>for char in text\<close> loop of \<open>count_letters\<close>, with its counter.\<close>

fun count_loop :: "bool \<Rightarrow> bool \<Rightarrow> str \<Rightarrow> int \<Rightarrow> int" where
  "count_loop include_wasla include_khanjariyya [] count = count"
| "count_loop include_wasla include_khanjariyya (char # rest) count =
     count_loop include_wasla include_khanjariyya rest
       (if char \<in> set ARABIC_LETTERS then count + 1
        else if include_wasla \<and> char = ALIF_WASLA then count + 1
        else if include_khanjariyya \<and> char = ALIF_KHANJARIYYA then count + 1
        else count)"

definition count_letters ::
  "str \<Rightarrow> LetterCountMethod \<Rightarrow> bool option \<Rightarrow> bool option \<Rightarrow> int" where
  "count_letters text method count_alif_wasla count_alif_khanjariyya =
     (let (include_wasla, include_khanjariyya) =
            get_counting_rules method count_alif_wasla count_alif_khanjariyya
      in count_loop include_wasla include_khanjariyya text 0)"

text \<open>The dictionary returned by \<open>count_letters_detailed\<close>, one field per key.\<close>

record LetterBreakdown =
  total :: int
  base_letters :: int
  alif_wasla :: int
  alif_khanjariyya :: int
  method_used :: LetterCountMethod
  wasla_included :: bool
  khanjariyya_included :: bool

text \<open>The loop of \<open>count_letters_detailed\<close> over its three counters (base, wasla, khanjariyya).\<close>

fun detailed_loop :: "str \<Rightarrow> int \<times> int \<times> int \<Rightarrow> int \<times> int \<times> int" where
  "detailed_loop [] acc = acc"
| "detailed_loop (char # rest) (base, wasla, khanjariyya) =
     detailed_loop rest
       (if char \<in> set ARABIC_LETTERS then (base + 1, wasla, khanjariyya)
        else if char = ALIF_WASLA then (base, wasla + 1, khanjariyya)
        else if char = ALIF_KHANJARIYYA then (base, wasla, khanjariyya + 1)
        else (base, wasla, khanjariyya))"

definition count_letters_detailed ::
  "str \<Rightarrow> LetterCountMethod \<Rightarrow> bool option \<Rightarrow> bool option \<Rightarrow> LetterBreakdown" where
  "count_letters_detailed text method count_alif_wasla count_alif_khanjariyya =
     (let (include_wasla, include_khanjariyya) =
            get_counting_rules method count_alif_wasla count_alif_khanjariyya;
          (base, wasla, khanjariyya) = detailed_loop text (0, 0, 0);
          total = base;
          total = (if include_wasla then total + wasla else total);
          total = (if include_khanjariyya then total + khanjariyya else total)
      in \<lparr>total = total, base_letters = base, alif_wasla = wasla,
          alif_khanjariyya = khanjariyya, method_used = method,
          wasla_included = include_wasla, khanjariyya_included = include_khanjariyya\<rparr>)"

definition normalize_letter :: "codepoint \<Rightarrow> codepoint" where
  "normalize_letter char =
     (if char \<in> set [0x0622, 0x0623, 0x0625, 0x0627, ALIF_WASLA, ALIF_KHANJARIYYA]
      then 0x0627
      else if char \<in> set [0x064A, 0x0649, 0x0626] then 0x064A
      else char)"

text \<open>
  A Python \<open>dict\<close> keeps its keys in insertion order: an association list, where
  \<open>d.get(k, default)\<close> reads the entry of \<open>k\<close> and \<open>d[k] = v\<close> overwrites the entry in
  place or appends a new one.
\<close>

definition dict_get :: "('k \<times> 'v) list \<Rightarrow> 'k \<Rightarrow> 'v \<Rightarrow> 'v" where
  "dict_get d k dflt = (case map_of d k of Some v \<Rightarrow> v | None \<Rightarrow> dflt)"

fun dict_set :: "('k \<times> 'v) list \<Rightarrow> 'k \<Rightarrow> 'v \<Rightarrow> ('k \<times> 'v) list" where
  "dict_set [] k v = [(k, v)]"
| "dict_set ((k', v') # d) k v =
     (if k' = k then (k, v) # d else (k', v') # dict_set d k v)"

definition dict_values :: "('k \<times> 'v) list \<Rightarrow> 'v list" where
  "dict_values d = map snd d"

fun freq_loop :: "bool \<Rightarrow> str \<Rightarrow> (codepoint \<times> int) list \<Rightarrow> (codepoint \<times> int) list" where
  "freq_loop normalize_variants [] freq = freq"
| "freq_loop normalize_variants (char # rest) freq =
     freq_loop normalize_variants rest
       (if char \<in> set ARABIC_LETTERS \<or> char \<in> set COUNTABLE_SPECIAL
        then (let letter = (if normalize_variants then normalize_letter char else char)
              in dict_set freq letter (dict_get freq letter 0 + 1))
        else freq)"

definition get_letter_frequency :: "str \<Rightarrow> bool \<Rightarrow> (codepoint \<times> int) list" where
  "get_letter_frequency text normalize_variants = freq_loop normalize_variants text []"

section \<open>Value objects and their errors\<close>

text \<open>
  \<open>TextChecksum\<close> (domain/value\_objects/checksum.py): the algorithm tag and the
  digest, a Python \<open>str\<close>. The field \<open>value\<close> of the source is \<open>checksum_value\<close> here.
\<close>

record TextChecksum =
  algorithm :: string
  checksum_value :: str

text \<open>
  The exceptions the modelled code raises: Python's \<open>ValueError\<close>, \<open>TypeError\<close> and
  \<open>UnicodeEncodeError\<close>, and the domain's \<open>IntegrityViolationError\<close> with its three
  arguments (expected, actual, context).
\<close>

datatype error =
  ValueError
| TypeError
| UnicodeEncodeError
| IntegrityViolationError TextChecksum TextChecksum str

subsection \<open>AbjadValue (domain/value\_objects/abjad\_value.py)\<close>

datatype AbjadSystem = MASHRIQI | MAGHRIBI

text \<open>
  The frozen dataclass. Its field \<open>value\<close> is \<open>abjad_value\<close> here, \<open>value\<close> being a
  command of Isabelle.
\<close>

record AbjadValue =
  system :: AbjadSystem
  abjad_value :: int
  letter_breakdown :: "(str \<times> int) list"

text \<open>
  Construction stores the fields as given and runs \<open>__post_init__\<close>, which raises or
  returns without touching them.
\<close>

definition AbjadValue_init ::
  "AbjadSystem \<Rightarrow> int \<Rightarrow> (str \<times> int) list \<Rightarrow> error + AbjadValue" where
  "AbjadValue_init sys val breakdown =
     (if val < 0 then Inl ValueError
      else let computed_sum = sum_list (map snd breakdown)
           in if computed_sum \<noteq> val then Inl ValueError
              else Inr \<lparr>system = sys, abjad_value = val, letter_breakdown = breakdown\<rparr>)"

subsection \<open>VerseLocation (domain/value\_objects/verse\_location.py)\<close>

definition MIN_SURAH :: int where "MIN_SURAH = 1"
definition MAX_SURAH :: int where "MAX_SURAH = 114"
definition MIN_VERSE :: int where "MIN_VERSE = 1"

definition MAX_VERSES_PER_SURAH :: "(int \<times> int) list" where
  "MAX_VERSES_PER_SURAH =
     [
      (1, 7), (2, 286), (3, 200), (4, 176), (5, 120), (6, 165), (7, 206), (8, 75), (9, 129), (10, 109),
      (11, 123), (12, 111), (13, 43), (14, 52), (15, 99), (16, 128), (17, 111), (18, 110), (19, 98), (20, 135),
      (21, 112), (22, 78), (23, 118), (24, 64), (25, 77), (26, 227), (27, 93), (28, 88), (29, 69), (30, 60),
      (31, 34), (32, 30), (33, 73), (34, 54), (35, 45), (36, 83), (37, 182), (38, 88), (39, 75), (40, 85),
      (41, 54), (42, 53), (43, 89), (44, 59), (45, 37), (46, 35), (47, 38), (48, 29), (49, 18), (50, 45),
      (51, 60), (52, 49), (53, 62), (54, 55), (55, 78), (56, 96), (57, 29), (58, 22), (59, 24), (60, 13),
      (61, 14), (62, 11), (63, 11), (64, 18), (65, 12), (66, 12), (67, 30), (68, 52), (69, 52), (70, 44),
      (71, 28), (72, 28), (73, 20), (74, 56), (75, 40), (76, 31), (77, 50), (78, 40), (79, 46), (80, 42),
      (81, 29), (82, 19), (83, 36), (84, 25), (85, 22), (86, 17), (87, 19), (88, 26), (89, 30), (90, 20),
      (91, 15), (92, 21), (93, 11), (94, 8), (95, 8), (96, 19), (97, 5), (98, 8), (99, 8), (100, 11),
      (101, 11), (102, 8), (103, 3), (104, 9), (105, 5), (106, 4), (107, 7), (108, 3), (109, 6), (110, 3),
      (111, 5), (112, 4), (113, 5), (114, 6)
     ]"

record VerseLocation =
  surah_number :: int
  verse_number :: int

definition VerseLocation_init :: "int \<Rightarrow> int \<Rightarrow> error + VerseLocation" where
  "VerseLocation_init surah verse =
     (if \<not> (MIN_SURAH \<le> surah \<and> surah \<le> MAX_SURAH) then Inl ValueError
      else if verse < MIN_VERSE then Inl ValueError
      else case map_of MAX_VERSES_PER_SURAH surah of
             Some max_verses \<Rightarrow>
               if verse > max_verses then Inl ValueError
               else Inr \<lparr>surah_number = surah, verse_number = verse\<rparr>
           | None \<Rightarrow> Inr \<lparr>surah_number = surah, verse_number = verse\<rparr>)"

definition is_last_verse :: "VerseLocation \<Rightarrow> bool" where
  "is_last_verse self =
     (let max_verses = dict_get MAX_VERSES_PER_SURAH (surah_number self) 0
      in verse_number self = max_verses)"

subsection \<open>TextChecksum and IntegrityGuard (infrastructure/integrity/guard.py)\<close>










section \<open>AbjadCalculator.digital\_root (domain/services/abjad\_calculator.py)\<close>

definition AbjadValue_digital_root :: "AbjadValue \<Rightarrow> int" where
  "AbjadValue_digital_root self =
     (if abjad_value self = 0 then 0 else 1 + (abjad_value self - 1) mod 9)"

definition digital_root :: "int \<Rightarrow> int" where
  "digital_root val = (if val = 0 then 0 else 1 + (val - 1) mod 9)"

text \<open>
  The specification's reference procedure, written from its words: sum the decimal
  digits, and repeat until a single digit remains.
\<close>

function digit_sum :: "nat \<Rightarrow> nat" where
  "digit_sum n = (if n < 10 then n else n mod 10 + digit_sum (n div 10))"
  by pat_completeness auto
termination
  by (relation "measure id") simp_all

declare digit_sum.simps [simp del]

lemma digit_sum_small: "n < 10 \<Longrightarrow> digit_sum n = n"
  by (subst digit_sum.simps) simp

lemma digit_sum_rec: "\<not> n < 10 \<Longrightarrow> digit_sum n = n mod 10 + digit_sum (n div 10)"
  by (subst digit_sum.simps) simp

lemma div_mod_10_le: "(n::nat) mod 10 + n div 10 \<le> n"
proof -
  have "n = 10 * (n div 10) + n mod 10" by simp
  moreover have "\<And>q r. (n::nat) = 10 * q + r \<Longrightarrow> r + q \<le> n" by simp
  ultimately show ?thesis by blast
qed

lemma div_mod_10_less: "10 \<le> (n::nat) \<Longrightarrow> n mod 10 + n div 10 < n"
proof -
  assume a: "10 \<le> n"
  then have "0 < n div 10" by simp
  moreover have "n = 10 * (n div 10) + n mod 10" by simp
  moreover have "\<And>q r. (n::nat) = 10 * q + r \<Longrightarrow> 0 < q \<Longrightarrow> r + q < n" by simp
  ultimately show ?thesis by blast
qed

lemma digit_sum_le: "digit_sum n \<le> n"
proof (induction n rule: digit_sum.induct)
  case (1 n)
  show ?case
  proof (cases "n < 10")
    case True
    then show ?thesis by (simp add: digit_sum_small)
  next
    case False
    with 1 have "digit_sum (n div 10) \<le> n div 10" by simp
    moreover have "n mod 10 + n div 10 \<le> n" by (rule div_mod_10_le)
    ultimately show ?thesis using False by (simp add: digit_sum_rec)
  qed
qed

lemma digit_sum_less: "10 \<le> n \<Longrightarrow> digit_sum n < n"
proof -
  assume a: "10 \<le> n"
  have "digit_sum (n div 10) \<le> n div 10" by (rule digit_sum_le)
  moreover from a have "n mod 10 + n div 10 < n" by (rule div_mod_10_less)
  ultimately show ?thesis using a by (simp add: digit_sum_rec)
qed

function iterated_digit_sum_spec :: "nat \<Rightarrow> nat" where
  "iterated_digit_sum_spec n = (if n < 10 then n else iterated_digit_sum_spec (digit_sum n))"
  by pat_completeness auto
termination
  by (relation "measure id") (simp_all add: digit_sum_less)

declare iterated_digit_sum_spec.simps [simp del]

section \<open>ArabicNormalizer (infrastructure/text/normalizer.py)\<close>

text \<open>
  \<open>NormalizationLevel\<close> is a \<open>StrEnum\<close>: the \<open>value\<close> of a member is its string, and
  the comparison \<open>level.value >= OTHER.value\<close> in \<open>normalize\<close> is Python's comparison of
  strings, which is lexicographic on code points (the order of lists of characters).
\<close>

datatype NormalizationLevel =
  NONE | TASHKEEL_REMOVED | HAMZA_UNIFIED | ALIF_UNIFIED | YA_UNIFIED | FULL

fun level_value :: "NormalizationLevel \<Rightarrow> string" where
  "level_value NONE = ''none''"
| "level_value TASHKEEL_REMOVED = ''tashkeel_removed''"
| "level_value HAMZA_UNIFIED = ''hamza_unified''"
| "level_value ALIF_UNIFIED = ''alif_unified''"
| "level_value YA_UNIFIED = ''ya_unified''"
| "level_value FULL = ''full''"

definition TASHKEEL :: "codepoint list" where
  "TASHKEEL =
     [0x064B, 0x064C, 0x064D, 0x064E, 0x064F, 0x0650, 0x0651, 0x0652, 0x0653,
      0x0654, 0x0655, 0x0656, 0x0657, 0x0658, 0x065C, 0x065D, 0x065E, 0x0670]"

text \<open>The three dictionaries, in their insertion order (the order \<open>items()\<close> yields).\<close>

definition HAMZA_MAP :: "(codepoint \<times> codepoint) list" where
  "HAMZA_MAP =
     [(0x0623, 0x0621), (0x0625, 0x0621), (0x0624, 0x0621), (0x0626, 0x0621),
      (0x0622, 0x0621)]"

definition ALIF_MAP :: "(codepoint \<times> codepoint) list" where
  "ALIF_MAP =
     [(0x0622, 0x0627), (0x0623, 0x0627), (0x0625, 0x0627), (0x0671, 0x0627),
      (0x0670, 0x0627)]"

definition YA_MAP :: "(codepoint \<times> codepoint) list" where
  "YA_MAP = [(0x0649, 0x064A), (0x0626, 0x064A)]"

definition TATWEEL :: codepoint where
  "TATWEEL = 0x0640"

definition SMALL_LETTERS :: "codepoint list" where
  "SMALL_LETTERS =
     [0x06E1, 0x06E2, 0x06E3, 0x06E4, 0x06E5, 0x06E6, 0x06E7, 0x06E8, 0x06E9,
      0x06EA, 0x06EB, 0x06EC, 0x06ED]"

definition WAQF_SIGNS :: "codepoint list" where
  "WAQF_SIGNS =
     [0x06D6, 0x06D7, 0x06D8, 0x06D9, 0x06DA, 0x06DB, 0x06DC, 0x06DD, 0x06DE]"

text \<open>
  \<open>text.replace(old, new)\<close> where \<open>old\<close> is a single code point, as in every call of the
  normalizer: each occurrence of \<open>old\<close> becomes the string \<open>new\<close>.
\<close>

definition str_replace :: "codepoint \<Rightarrow> str \<Rightarrow> str \<Rightarrow> str" where
  "str_replace old new text = concat (map (\<lambda>c. if c = old then new else [c]) text)"

text \<open>The loop \<open>for variant, replacement in MAP.items(): text = text.replace(...)\<close>.\<close>

fun replace_items :: "(codepoint \<times> codepoint) list \<Rightarrow> str \<Rightarrow> str" where
  "replace_items [] text = text"
| "replace_items ((variant, replacement) # rest) text =
     replace_items rest (str_replace variant [replacement] text)"

definition remove_tashkeel :: "str \<Rightarrow> str" where
  "remove_tashkeel text = filter (\<lambda>c. c \<notin> set TASHKEEL) text"

definition unify_hamza :: "str \<Rightarrow> str" where
  "unify_hamza text = replace_items HAMZA_MAP text"

definition unify_alif :: "str \<Rightarrow> str" where
  "unify_alif text = replace_items ALIF_MAP text"

definition unify_ya :: "str \<Rightarrow> str" where
  "unify_ya text = replace_items YA_MAP text"

definition full_normalize :: "str \<Rightarrow> str" where
  "full_normalize text =
     (let text = str_replace TATWEEL [] text;
          text = filter (\<lambda>c. c \<notin> set SMALL_LETTERS) text;
          text = filter (\<lambda>c. c \<notin> set WAQF_SIGNS) text
      in text)"

definition normalize :: "str \<Rightarrow> NormalizationLevel \<Rightarrow> str" where
  "normalize text level =
     (if level = NONE then text
      else
        let text = (if level_value level \<ge> level_value TASHKEEL_REMOVED
                    then remove_tashkeel text else text);
            text = (if level_value level \<ge> level_value HAMZA_UNIFIED
                    then unify_hamza text else text);
            text = (if level_value level \<ge> level_value ALIF_UNIFIED
                    then unify_alif text else text);
            text = (if level_value level \<ge> level_value YA_UNIFIED
                    then unify_ya text else text);
            text = (if level = FULL then full_normalize text else text)
        in text)"

text \<open>
  The specification's cascade, written from its words: the six levels in their order
  None, DiacriticsRemoved, HamzaUnified, AlifUnified, YaUnified, Full, each level applying
  the steps of all lower levels in increasing order and then its own.
\<close>

fun level_rank_spec :: "NormalizationLevel \<Rightarrow> nat" where
  "level_rank_spec NONE = 0"
| "level_rank_spec TASHKEEL_REMOVED = 1"
| "level_rank_spec HAMZA_UNIFIED = 2"
| "level_rank_spec ALIF_UNIFIED = 3"
| "level_rank_spec YA_UNIFIED = 4"
| "level_rank_spec FULL = 5"

definition normalize_cascade_spec :: "str \<Rightarrow> NormalizationLevel \<Rightarrow> str" where
  "normalize_cascade_spec text level =
     (let text = (if level_rank_spec level \<ge> 1 then remove_tashkeel text else text);
          text = (if level_rank_spec level \<ge> 2 then unify_hamza text else text);
          text = (if level_rank_spec level \<ge> 3 then unify_alif text else text);
          text = (if level_rank_spec level \<ge> 4 then unify_ya text else text);
          text = (if level_rank_spec level \<ge> 5 then full_normalize text else text)
      in text)"

section \<open>EntityVariantMatcher (infrastructure/text/entity\_matcher.py)\<close>

text \<open>
  The frozensets of prefixes, listed in the order the source writes them. Membership
  does not depend on the order; the one place where the order of iteration matters
  (\<open>extract_prefix\<close>) takes it as a parameter.
\<close>

definition MATCHABLE_PREFIXES :: "str list" where
  "MATCHABLE_PREFIXES =
     [[0x0628, 0x0650], [0x0628, 0x0640], [0x0628],
      [0x0648, 0x064E], [0x0648, 0x0640], [0x0648],
      [0x0641, 0x064E], [0x0641, 0x0640], [0x0641],
      [0x0644, 0x0650], [0x0644, 0x0640], [0x0644],
      [0x0643, 0x064E], [0x0643, 0x0640], [0x0643],
      [0x0623, 0x064E], [0x0623],
      [0x064A, 0x064E, 0x0627], [0x064A, 0x0627]]"

definition COMBINED_PREFIXES :: "str list" where
  "COMBINED_PREFIXES =
     [[0x0648, 0x064E, 0x0628, 0x0650], [0x0648, 0x0628],
      [0x0641, 0x064E, 0x0628, 0x0650], [0x0641, 0x0628],
      [0x0648, 0x064E, 0x0644, 0x0650], [0x0648, 0x0644],
      [0x0641, 0x064E, 0x0644, 0x0650], [0x0641, 0x0644],
      [0x0648, 0x064E, 0x0643, 0x064E], [0x0648, 0x0643],
      [0x0641, 0x064E, 0x0643, 0x064E], [0x0641, 0x0643],
      [0x0623, 0x064E, 0x0628, 0x0650], [0x0623, 0x0628],
      [0x0623, 0x064E, 0x0641, 0x064E], [0x0623, 0x0641],
      [0x0623, 0x064E, 0x0648, 0x064E], [0x0623, 0x0648]]"

definition ALL_PREFIXES :: "str list" where
  "ALL_PREFIXES = MATCHABLE_PREFIXES @ COMBINED_PREFIXES"

text \<open>The literal list of article prefixes in \<open>_generate_all_forms\<close>.\<close>

definition ARTICLE_PREFIXES :: "str list" where
  "ARTICLE_PREFIXES =
     [[0x0644, 0x0650, 0x0644], [0x0644, 0x0644],
      [0x0628, 0x0650, 0x0627, 0x0644], [0x0628, 0x0627, 0x0644],
      [0x0648, 0x064E, 0x0627, 0x0644], [0x0648, 0x0627, 0x0644],
      [0x0641, 0x064E, 0x0627, 0x0644], [0x0641, 0x0627, 0x0644],
      [0x0643, 0x064E, 0x0627, 0x0644], [0x0643, 0x0627, 0x0644]]"

definition strip_tashkeel :: "str \<Rightarrow> str" where
  "strip_tashkeel text =
     filter (\<lambda>c. c \<notin> set [0x064B, 0x064C, 0x064D, 0x064E, 0x064F,
                            0x0650, 0x0651, 0x0652, 0x0653, 0x0654,
                            0x0655, 0x0670]) text"

definition startswith :: "str \<Rightarrow> str \<Rightarrow> bool" where
  "startswith word prefix = (take (length prefix) word = prefix)"

text \<open>The two forms each prefix contributes: stripped of its tashkeel, and as written.\<close>

definition prefixed_forms :: "str list \<Rightarrow> str \<Rightarrow> str list" where
  "prefixed_forms prefixes stem =
     concat (map (\<lambda>prefix. [strip_tashkeel prefix @ stem, prefix @ stem]) prefixes)"

text \<open>The set of forms, as a list of its elements.\<close>

definition generate_all_forms :: "str \<Rightarrow> str list" where
  "generate_all_forms base =
     [base]
     @ prefixed_forms MATCHABLE_PREFIXES base
     @ prefixed_forms COMBINED_PREFIXES base
     @ (if startswith base [0x0627, 0x0644] \<or> startswith base [0x0671, 0x0644]
        then (let base_without_al = drop 2 base
              in prefixed_forms ARTICLE_PREFIXES base_without_al)
        else [])"

record EntityVariantMatcher =
  base_word :: str
  all_forms :: "str list"

definition EntityVariantMatcher_init :: "str \<Rightarrow> EntityVariantMatcher" where
  "EntityVariantMatcher_init base = \<lparr>base_word = base, all_forms = generate_all_forms base\<rparr>"

definition matches :: "EntityVariantMatcher \<Rightarrow> str \<Rightarrow> bool" where
  "matches self word =
     (if word \<in> set (all_forms self) then True
      else (let clean_word = strip_tashkeel word;
                clean_forms = map strip_tashkeel (all_forms self)
            in clean_word \<in> set clean_forms))"

text \<open>
  The body of the loop of \<open>extract_prefix\<close> for one prefix: the pair it returns, or
  \<open>None\<close> when the loop goes on to the next prefix.
\<close>

definition try_prefix :: "EntityVariantMatcher \<Rightarrow> str \<Rightarrow> str \<Rightarrow> (str \<times> str) option" where
  "try_prefix self word prefix =
     (let clean_prefix = strip_tashkeel prefix
      in if startswith word prefix \<or> startswith word clean_prefix
         then (let actual_prefix = (if startswith word prefix then prefix else clean_prefix);
                   remainder = drop (length actual_prefix) word
               in if strip_tashkeel remainder = strip_tashkeel (base_word self)
                  then Some (actual_prefix, remainder)
                  else None)
         else None)"

fun prefix_loop :: "EntityVariantMatcher \<Rightarrow> str \<Rightarrow> str list \<Rightarrow> (str \<times> str) option" where
  "prefix_loop self word [] = None"
| "prefix_loop self word (prefix # rest) =
     (case try_prefix self word prefix of
        Some found \<Rightarrow> Some found
      | None \<Rightarrow> prefix_loop self word rest)"

text \<open>
  \<open>sorted(xs, key=len, reverse=True)\<close>: a stable sort by decreasing length (equal
  lengths keep their order in \<open>xs\<close>).
\<close>

definition sorted_by_len_desc :: "str list \<Rightarrow> str list" where
  "sorted_by_len_desc xs = sort_key (\<lambda>p. - int (length p)) xs"

text \<open>
  \<open>extract_prefix\<close>. The order in which the frozenset \<open>ALL_PREFIXES\<close> yields its
  elements is not fixed by Python, so it is the parameter \<open>iteration_order\<close>: any list
  of the elements of \<open>ALL_PREFIXES\<close>.
\<close>

definition extract_prefix ::
  "str list \<Rightarrow> EntityVariantMatcher \<Rightarrow> str \<Rightarrow> (str \<times> str) option" where
  "extract_prefix iteration_order self word =
     (if \<not> matches self word then None
      else case prefix_loop self word (sorted_by_len_desc iteration_order) of
             Some found \<Rightarrow> Some found
           | None \<Rightarrow> if matches self word then Some ([], word) else None)"

text \<open>
  The vocabulary of the claim about \<open>extract_prefix\<close>: the clitic forms are the single
  and combined prefixes with or without their diacritics; a form qualifies for a word
  when it begins the word and leaves a remainder equal to the canonical word up to
  diacritics.
\<close>

definition clitic_forms :: "str list" where
  "clitic_forms = ALL_PREFIXES @ map strip_tashkeel ALL_PREFIXES"

definition qualifies :: "str \<Rightarrow> str \<Rightarrow> str \<Rightarrow> bool" where
  "qualifies base word q =
     (startswith word q \<and> strip_tashkeel (drop (length q) word) = strip_tashkeel base)"

section \<open>Properties of the letter counter\<close>

lemma count_loop_mono:
  "(iw \<longrightarrow> iw') \<Longrightarrow> (ik \<longrightarrow> ik') \<Longrightarrow> c \<le> c'
     \<Longrightarrow> count_loop iw ik t c \<le> count_loop iw' ik' t c'"
proof (induction t arbitrary: c c')
  case Nil
  then show ?case by simp
next
  case (Cons x t)
  show ?case
    unfolding count_loop.simps
    by (rule Cons.IH) (use Cons.prems in auto)
qed

lemma rules_TRADITIONAL: "get_counting_rules TRADITIONAL None None = (True, False)"
  by (simp add: get_counting_rules_def method_rules_def)

lemma rules_UTHMANI_FULL: "get_counting_rules UTHMANI_FULL None None = (True, True)"
  by (simp add: get_counting_rules_def method_rules_def)

lemma rules_NO_WASLA: "get_counting_rules NO_WASLA None None = (False, False)"
  by (simp add: get_counting_rules_def method_rules_def)

lemma rules_override:
  "get_counting_rules m (Some a) (Some b) = (a, b)"
  by (simp add: get_counting_rules_def split: option.splits prod.splits)

text \<open>
  Claim C7. For every text, the count under NO\_WASLA is at most the count under
  TRADITIONAL, which is at most the count under UTHMANI\_FULL, no override being given.
\<close>

theorem count_letters_monotone_in_method:
  "count_letters t NO_WASLA None None \<le> count_letters t TRADITIONAL None None
   \<and> count_letters t TRADITIONAL None None \<le> count_letters t UTHMANI_FULL None None"
  by (simp add: count_letters_def rules_TRADITIONAL rules_UTHMANI_FULL rules_NO_WASLA
        count_loop_mono)

lemma detailed_loop_total:
  "detailed_loop t (b, w, k) = (b', w', k') \<Longrightarrow>
   count_loop iw ik t c
     = c + (b' - b) + (if iw then w' - w else 0) + (if ik then k' - k else 0)"
proof (induction t arbitrary: b w k c)
  case Nil
  then show ?case by simp
next
  case (Cons x t)
  have distinct_specials: "ALIF_WASLA \<noteq> ALIF_KHANJARIYYA"
    by (simp add: ALIF_WASLA_def ALIF_KHANJARIYYA_def)
  show ?case
  proof (cases "x \<in> set ARABIC_LETTERS")
    case True
    with Cons.prems have "detailed_loop t (b + 1, w, k) = (b', w', k')" by simp
    from Cons.IH [OF this, of "c + 1"] True show ?thesis
      by (cases iw; cases ik; simp)
  next
    case notletter: False
    show ?thesis
    proof (cases "x = ALIF_WASLA")
      case True
      with notletter Cons.prems have "detailed_loop t (b, w + 1, k) = (b', w', k')" by simp
      from Cons.IH [OF this, of "c + 1"] Cons.IH [OF this, of c]
        True notletter distinct_specials
      show ?thesis
        by (cases iw; cases ik; simp)
    next
      case notwasla: False
      show ?thesis
      proof (cases "x = ALIF_KHANJARIYYA")
        case True
        with notletter notwasla Cons.prems
        have "detailed_loop t (b, w, k + 1) = (b', w', k')" by simp
        from Cons.IH [OF this, of "c + 1"] Cons.IH [OF this, of c]
          True notletter notwasla
        show ?thesis
          by (cases iw; cases ik; simp)
      next
        case False
        with notletter notwasla Cons.prems
        have "detailed_loop t (b, w, k) = (b', w', k')" by simp
        from Cons.IH [OF this, of c] notletter notwasla False show ?thesis by simp
      qed
    qed
  qed
qed

text \<open>
  Claim C10. For every text, method and pair of optional overrides, the \<open>total\<close> field of
  \<open>count_letters_detailed\<close> equals what \<open>count_letters\<close> returns.
\<close>

theorem detailed_total_agrees_with_count:
  "total (count_letters_detailed t m ow ok) = count_letters t m ow ok"
proof -
  obtain iw ik where r: "get_counting_rules m ow ok = (iw, ik)" by (cases "get_counting_rules m ow ok")
  obtain b w k where d: "detailed_loop t (0, 0, 0) = (b, w, k)" by (cases "detailed_loop t (0, 0, 0)")
  from detailed_loop_total [OF d, of iw ik 0]
  have "count_loop iw ik t 0 = b + (if iw then w else 0) + (if ik then k else 0)" by simp
  then show ?thesis
    by (simp add: count_letters_detailed_def count_letters_def r d)
qed

lemma dict_set_sum:
  "sum_list (map snd (dict_set d k (dict_get d k 0 + 1))) = sum_list (map snd d) + (1::int)"
proof (induction d)
  case Nil
  show ?case by (simp add: dict_get_def)
next
  case (Cons e d)
  obtain k' v' where e: "e = (k', v')" by (cases e)
  show ?case
  proof (cases "k' = k")
    case True
    then show ?thesis by (simp add: e dict_get_def)
  next
    case False
    with Cons.IH show ?thesis by (simp add: e dict_get_def)
  qed
qed

lemma freq_loop_sum:
  "sum_list (dict_values (freq_loop nv t freq))
     = count_loop True True t (sum_list (dict_values freq))"
proof (induction t arbitrary: freq)
  case Nil
  show ?case by simp
next
  case (Cons x t)
  show ?case
  proof (cases "x \<in> set ARABIC_LETTERS \<or> x \<in> set COUNTABLE_SPECIAL")
    case True
    then have "count_loop True True (x # t) (sum_list (dict_values freq))
                 = count_loop True True t (sum_list (dict_values freq) + 1)"
      by (auto simp: COUNTABLE_SPECIAL_def)
    moreover from True have "freq_loop nv (x # t) freq
        = freq_loop nv t
            (let letter = (if nv then normalize_letter x else x)
             in dict_set freq letter (dict_get freq letter 0 + 1))"
      by simp
    ultimately show ?thesis
      using Cons.IH by (simp add: Let_def dict_values_def dict_set_sum)
  next
    case False
    then show ?thesis using Cons.IH by (auto simp: COUNTABLE_SPECIAL_def)
  qed
qed

text \<open>
  Claim C2. For every text, the values of \<open>get_letter_frequency\<close> with variants
  normalised sum to \<open>count_letters\<close> of the same text under the inclusion settings the
  frequency loop uses: both special glyphs counted, which is the method UTHMANI\_FULL, or
  any method with both overrides set.
\<close>

theorem frequency_sum_equals_count:
  "sum_list (dict_values (get_letter_frequency t True)) = count_letters t UTHMANI_FULL None None
   \<and> sum_list (dict_values (get_letter_frequency t True))
       = count_letters t m (Some True) (Some True)"
proof -
  have "sum_list (dict_values (freq_loop True t [])) = count_loop True True t 0"
    using freq_loop_sum [of True t "[]"] by (simp add: dict_values_def)
  then show ?thesis
    by (simp add: get_letter_frequency_def count_letters_def rules_UTHMANI_FULL rules_override)
qed

section \<open>Properties of the value objects and the integrity guard\<close>


text \<open>
  Claim C4. Constructing an AbjadValue whose breakdown does not sum to the declared
  value fails; whenever construction succeeds, the value and the breakdown are the
  ones supplied (nothing is corrected) and the breakdown sums to the value.
\<close>

theorem abjad_value_breakdown_enforced:
  "(sum_list (map snd breakdown) \<noteq> val \<longrightarrow> AbjadValue_init sys val breakdown = Inl ValueError)
   \<and> (\<forall>av. AbjadValue_init sys val breakdown = Inr av \<longrightarrow>
         abjad_value av = val \<and> letter_breakdown av = breakdown
         \<and> sum_list (map snd (letter_breakdown av)) = abjad_value av)"
proof (rule conjI)
  show "sum_list (map snd breakdown) \<noteq> val
          \<longrightarrow> AbjadValue_init sys val breakdown = Inl ValueError"
    by (simp add: AbjadValue_init_def)
next
  show "\<forall>av. AbjadValue_init sys val breakdown = Inr av \<longrightarrow>
         abjad_value av = val \<and> letter_breakdown av = breakdown
         \<and> sum_list (map snd (letter_breakdown av)) = abjad_value av"
  proof (intro allI impI)
    fix av
    assume built: "AbjadValue_init sys val breakdown = Inr av"
    then have consistent: "sum_list (map snd breakdown) = val" and nonneg: "\<not> val < 0"
      by (auto simp: AbjadValue_init_def Let_def split: if_splits)
    with built have "av = \<lparr>system = sys, abjad_value = val, letter_breakdown = breakdown\<rparr>"
      by (simp add: AbjadValue_init_def)
    with consistent show "abjad_value av = val \<and> letter_breakdown av = breakdown
           \<and> sum_list (map snd (letter_breakdown av)) = abjad_value av"
      by simp
  qed
qed

theorem abjad_value_breakdown_enforced_witness:
  "AbjadValue_init MASHRIQI 66 [([0x0627], 1), ([0x0644], 30), ([0x0644], 30), ([0x0647], 4)]
     = Inl ValueError
   \<and> AbjadValue_init MASHRIQI 66 [([0x0627], 1), ([0x0644], 30), ([0x0644], 30), ([0x0647], 5)]
     = Inr \<lparr>system = MASHRIQI, abjad_value = 66,
            letter_breakdown = [([0x0627], 1), ([0x0644], 30), ([0x0644], 30), ([0x0647], 5)]\<rparr>"
  using abjad_value_breakdown_enforced
          [of "[([0x0627], 1), ([0x0644], 30), ([0x0644], 30), ([0x0647], 4)]" 66 MASHRIQI]
        abjad_value_breakdown_enforced
          [of "[([0x0627], 1), ([0x0644], 30), ([0x0644], 30), ([0x0647], 5)]" 66 MASHRIQI]
  by (simp add: AbjadValue_init_def)

lemma table_keys: "map fst MAX_VERSES_PER_SURAH = map int [1..<115]"
  unfolding MAX_VERSES_PER_SURAH_def by (simp add: upt_rec)

lemma table_total:
  assumes "1 \<le> s" "s \<le> 114"
  shows "\<exists>m. map_of MAX_VERSES_PER_SURAH s = Some m"
proof -
  from assms have "nat s \<in> {1..<115}" by auto
  then have "int (nat s) \<in> int ` {1..<115}" by (rule imageI)
  with assms have "s \<in> int ` {1..<115}" by simp
  also have "int ` {1..<115} = set (map fst MAX_VERSES_PER_SURAH)"
    by (simp only: table_keys set_map set_upt)
  finally have "s \<in> fst ` set MAX_VERSES_PER_SURAH" by simp
  then have "map_of MAX_VERSES_PER_SURAH s \<noteq> None" by (simp only: map_of_eq_None_iff) simp
  then show ?thesis by auto
qed

text \<open>
  Claim C5. Constructing a VerseLocation fails when the surah number is outside
  1..114, when the verse number is below 1, or when it exceeds the table's maximum for
  the surah (the table has an entry for every surah 1..114). VerseLocation(1, 8) fails;
  VerseLocation(1, 7) succeeds and is the last verse of its surah.
\<close>

theorem verse_location_validated:
  "(surah < 1 \<or> 114 < surah \<longrightarrow> VerseLocation_init surah verse = Inl ValueError)
   \<and> (verse < 1 \<longrightarrow> VerseLocation_init surah verse = Inl ValueError)
   \<and> (1 \<le> surah \<and> surah \<le> 114 \<longrightarrow>
        (\<exists>m. map_of MAX_VERSES_PER_SURAH surah = Some m
           \<and> (m < verse \<longrightarrow> VerseLocation_init surah verse = Inl ValueError)))
   \<and> VerseLocation_init 1 8 = Inl ValueError
   \<and> (\<exists>loc. VerseLocation_init 1 7 = Inr loc \<and> is_last_verse loc)"
proof (intro conjI impI)
  assume "surah < 1 \<or> 114 < surah"
  then show "VerseLocation_init surah verse = Inl ValueError"
    by (auto simp: VerseLocation_init_def MIN_SURAH_def MAX_SURAH_def)
next
  assume "verse < 1"
  then show "VerseLocation_init surah verse = Inl ValueError"
    by (simp add: VerseLocation_init_def MIN_VERSE_def)
next
  assume "1 \<le> surah \<and> surah \<le> 114"
  then obtain m where m: "map_of MAX_VERSES_PER_SURAH surah = Some m"
    using table_total by blast
  then have "m < verse \<longrightarrow> VerseLocation_init surah verse = Inl ValueError"
    by (simp add: VerseLocation_init_def)
  with m show "\<exists>m. map_of MAX_VERSES_PER_SURAH surah = Some m
           \<and> (m < verse \<longrightarrow> VerseLocation_init surah verse = Inl ValueError)"
    by blast
next
  have one: "map_of MAX_VERSES_PER_SURAH 1 = Some 7"
    by (simp add: MAX_VERSES_PER_SURAH_def)
  show "VerseLocation_init 1 8 = Inl ValueError"
    by (simp add: VerseLocation_init_def one MIN_SURAH_def MAX_SURAH_def MIN_VERSE_def)
  show "\<exists>loc. VerseLocation_init 1 7 = Inr loc \<and> is_last_verse loc"
    by (simp add: VerseLocation_init_def is_last_verse_def dict_get_def one
          MIN_SURAH_def MAX_SURAH_def MIN_VERSE_def)
qed

theorem verse_location_validated_witness:
  "VerseLocation_init 0 1 = Inl ValueError
   \<and> VerseLocation_init 115 1 = Inl ValueError
   \<and> VerseLocation_init 2 0 = Inl ValueError
   \<and> map_of MAX_VERSES_PER_SURAH 2 = Some 286
   \<and> VerseLocation_init 2 287 = Inl ValueError
   \<and> VerseLocation_init 2 286 = Inr \<lparr>surah_number = 2, verse_number = 286\<rparr>"
proof -
  have two: "map_of MAX_VERSES_PER_SURAH 2 = Some 286"
    by (simp add: MAX_VERSES_PER_SURAH_def)
  have ok: "VerseLocation_init 2 286 = Inr \<lparr>surah_number = 2, verse_number = 286\<rparr>"
    by (simp add: VerseLocation_init_def two MIN_SURAH_def MAX_SURAH_def MIN_VERSE_def)
  have w1: "VerseLocation_init 0 1 = Inl ValueError"
    using verse_location_validated [of 0 1] by simp
  have w2: "VerseLocation_init 115 1 = Inl ValueError"
    using verse_location_validated [of 115 1] by simp
  have w3: "VerseLocation_init 2 0 = Inl ValueError"
    using verse_location_validated [of 2 0] by simp
  have "\<exists>m. map_of MAX_VERSES_PER_SURAH 2 = Some m
           \<and> (m < 287 \<longrightarrow> VerseLocation_init 2 287 = Inl ValueError)"
    using verse_location_validated [of 2 287] by simp
  with two have w4: "VerseLocation_init 2 287 = Inl ValueError" by simp
  from w1 w2 w3 two w4 ok show ?thesis by (intro conjI)
qed







section \<open>The digital root\<close>

lemma mod9_step: "((n::nat) mod 10 + (n div 10) mod 9) mod 9 = n mod 9"
proof -
  have "n = 9 * (n div 10) + (n div 10 + n mod 10)" by simp
  then have "n mod 9 = (9 * (n div 10) + (n div 10 + n mod 10)) mod 9" by simp
  also have "\<dots> = (n div 10 + n mod 10) mod 9" by (simp only: mod_mult_self4)
  also have "\<dots> = (n mod 10 + (n div 10) mod 9) mod 9" by (simp add: mod_simps add.commute)
  finally show ?thesis by simp
qed

lemma digit_sum_mod9: "digit_sum n mod 9 = n mod 9"
proof (induction n rule: digit_sum.induct)
  case (1 n)
  show ?case
  proof (cases "n < 10")
    case True
    then show ?thesis by (simp add: digit_sum_small)
  next
    case False
    with 1 have ih: "digit_sum (n div 10) mod 9 = (n div 10) mod 9" by simp
    have "digit_sum n mod 9 = (n mod 10 + digit_sum (n div 10)) mod 9"
      using False by (simp add: digit_sum_rec)
    also have "\<dots> = (n mod 10 + digit_sum (n div 10) mod 9) mod 9"
      by (simp add: mod_simps)
    also have "\<dots> = (n mod 10 + (n div 10) mod 9) mod 9" by (simp only: ih)
    also have "\<dots> = n mod 9" by (rule mod9_step)
    finally show ?thesis .
  qed
qed

lemma digit_sum_pos: "0 < n \<Longrightarrow> 0 < digit_sum n"
proof (induction n rule: digit_sum.induct)
  case (1 n)
  show ?case
  proof (cases "n < 10")
    case True
    with 1 show ?thesis by (simp add: digit_sum_small)
  next
    case False
    then have "0 < n div 10" by simp
    with 1 False have "0 < digit_sum (n div 10)" by simp
    with False show ?thesis by (simp add: digit_sum_rec)
  qed
qed

lemma iterated_small: "n < 10 \<Longrightarrow> iterated_digit_sum_spec n = n"
  by (subst iterated_digit_sum_spec.simps) simp

lemma iterated_rec:
  "\<not> n < 10 \<Longrightarrow> iterated_digit_sum_spec n = iterated_digit_sum_spec (digit_sum n)"
  by (subst iterated_digit_sum_spec.simps) simp

lemma iterated_digit_sum_props:
  "iterated_digit_sum_spec n < 10
   \<and> iterated_digit_sum_spec n mod 9 = n mod 9
   \<and> (0 < n \<longrightarrow> 0 < iterated_digit_sum_spec n)"
proof (induction n rule: iterated_digit_sum_spec.induct)
  case (1 n)
  show ?case
  proof (cases "n < 10")
    case True
    then show ?thesis by (simp add: iterated_small)
  next
    case False
    with 1 have ih: "iterated_digit_sum_spec (digit_sum n) < 10"
      "iterated_digit_sum_spec (digit_sum n) mod 9 = digit_sum n mod 9"
      "0 < digit_sum n \<longrightarrow> 0 < iterated_digit_sum_spec (digit_sum n)"
      by simp_all
    from False have "0 < digit_sum n" by (simp add: digit_sum_pos)
    with ih False show ?thesis by (simp add: iterated_rec digit_sum_mod9)
  qed
qed

lemma single_digit_closed_form:
  assumes "r < 10" and "r mod 9 = Suc m mod 9" and "0 < r"
  shows "r = 1 + m mod 9"
proof -
  from assms(3) obtain r' where r: "r = Suc r'" by (cases r) auto
  with assms(1) have small: "r' < 9" by simp
  have "r' mod 9 = (Suc r' + 8) mod 9" by simp
  also have "\<dots> = (Suc r' mod 9 + 8) mod 9" by (simp only: mod_add_left_eq)
  also have "\<dots> = (Suc m mod 9 + 8) mod 9" using assms(2) r by simp
  also have "\<dots> = (Suc m + 8) mod 9" by (simp only: mod_add_left_eq)
  also have "\<dots> = m mod 9" by simp
  finally have "r' mod 9 = m mod 9" .
  with small r show ?thesis by simp
qed

lemma digital_root_closed_form:
  "0 \<le> n \<Longrightarrow> digital_root n = int (iterated_digit_sum_spec (nat n))"
proof (cases "n = 0")
  case True
  then show ?thesis by (simp add: digital_root_def iterated_small)
next
  case False
  assume "0 \<le> n"
  with False have "0 < nat n" by simp
  then obtain m where m: "nat n = Suc m" by (cases "nat n") auto
  with \<open>0 \<le> n\<close> have n: "n = int m + 1" by linarith
  let ?r = "iterated_digit_sum_spec (Suc m)"
  from iterated_digit_sum_props [of "Suc m"]
  have "?r < 10" "?r mod 9 = Suc m mod 9" "0 < ?r" by simp_all
  then have "?r = 1 + m mod 9" by (rule single_digit_closed_form)
  then have r: "int ?r = 1 + int (m mod 9)" by simp
  have "digital_root n = 1 + (n - 1) mod 9" using False by (simp add: digital_root_def)
  also have "\<dots> = 1 + int m mod 9" by (simp add: n)
  also have "\<dots> = 1 + int (m mod 9)" by (simp add: zmod_int)
  also have "\<dots> = int ?r" by (simp only: r)
  finally show ?thesis by (simp only: m)
qed

text \<open>
  Claim C8. For every integer n \<ge> 0, the closed form of \<open>digital_root\<close> (0 for 0,
  otherwise 1 + (n - 1) mod 9) equals the result of summing the decimal digits of n
  repeatedly until a single digit remains. This holds for the calculator's function and
  for the method of every constructed AbjadValue (whose value is never negative).
\<close>

theorem digital_root_matches_iterated_digit_sum:
  "(0 \<le> n \<longrightarrow> digital_root n = int (iterated_digit_sum_spec (nat n)))
   \<and> (\<forall>av. AbjadValue_init sys n breakdown = Inr av \<longrightarrow>
         AbjadValue_digital_root av = int (iterated_digit_sum_spec (nat n)))"
proof (intro conjI impI allI)
  assume "0 \<le> n"
  then show "digital_root n = int (iterated_digit_sum_spec (nat n))"
    by (rule digital_root_closed_form)
next
  fix av
  assume a: "AbjadValue_init sys n breakdown = Inr av"
  then have nonneg: "0 \<le> n" and val: "abjad_value av = n"
    by (auto simp: AbjadValue_init_def Let_def split: if_splits)
  from val have "AbjadValue_digital_root av = digital_root n"
    by (simp add: AbjadValue_digital_root_def digital_root_def)
  also have "\<dots> = int (iterated_digit_sum_spec (nat n))"
    using nonneg by (rule digital_root_closed_form)
  finally show "AbjadValue_digital_root av = int (iterated_digit_sum_spec (nat n))" .
qed

theorem digital_root_matches_iterated_digit_sum_witness:
  "digital_root 786 = 3 \<and> iterated_digit_sum_spec 786 = 3
   \<and> AbjadValue_digital_root
        \<lparr>system = MASHRIQI, abjad_value = 66,
         letter_breakdown = [([0x0627], 1), ([0x0644], 30), ([0x0644], 30), ([0x0647], 5)]\<rparr> = 3
   \<and> iterated_digit_sum_spec 66 = 3"
proof -
  have c: "AbjadValue_init MASHRIQI 66 [([0x0627], 1), ([0x0644], 30), ([0x0644], 30), ([0x0647], 5)]
        = Inr \<lparr>system = MASHRIQI, abjad_value = 66,
           letter_breakdown = [([0x0627], 1), ([0x0644], 30), ([0x0644], 30), ([0x0647], 5)]\<rparr>"
    by (simp add: AbjadValue_init_def)
  have d1: "digital_root 786 = 3" by (simp add: digital_root_def)
  have d2: "AbjadValue_digital_root
        \<lparr>system = MASHRIQI, abjad_value = 66,
         letter_breakdown = [([0x0627], 1), ([0x0644], 30), ([0x0644], 30), ([0x0647], 5)]\<rparr> = 3"
    by (simp add: AbjadValue_digital_root_def)
  have "digital_root 786 = int (iterated_digit_sum_spec (nat 786))"
    using digital_root_matches_iterated_digit_sum [of 786 MASHRIQI "[]"] by simp
  with d1 have i1: "iterated_digit_sum_spec 786 = 3" by simp
  have "AbjadValue_digital_root
        \<lparr>system = MASHRIQI, abjad_value = 66,
         letter_breakdown = [([0x0627], 1), ([0x0644], 30), ([0x0644], 30), ([0x0647], 5)]\<rparr>
        = int (iterated_digit_sum_spec (nat 66))"
    using digital_root_matches_iterated_digit_sum
       [of 66 MASHRIQI "[([0x0627], 1), ([0x0644], 30), ([0x0644], 30), ([0x0647], 5)]"] c
    by blast
  with d2 have i2: "iterated_digit_sum_spec 66 = 3" by simp
  from d1 i1 d2 i2 show ?thesis by (intro conjI)
qed

section \<open>Properties of the normalizer\<close>

text \<open>The comparisons of level values that \<open>normalize\<close> makes, evaluated.\<close>

lemma cmp_levels:
  "level_value TASHKEEL_REMOVED \<ge> level_value TASHKEEL_REMOVED"
  "level_value TASHKEEL_REMOVED \<ge> level_value HAMZA_UNIFIED"
  "level_value TASHKEEL_REMOVED \<ge> level_value ALIF_UNIFIED"
  "\<not> level_value TASHKEEL_REMOVED \<ge> level_value YA_UNIFIED"
  "\<not> level_value HAMZA_UNIFIED \<ge> level_value TASHKEEL_REMOVED"
  "level_value HAMZA_UNIFIED \<ge> level_value HAMZA_UNIFIED"
  "level_value HAMZA_UNIFIED \<ge> level_value ALIF_UNIFIED"
  "\<not> level_value HAMZA_UNIFIED \<ge> level_value YA_UNIFIED"
  "\<not> level_value ALIF_UNIFIED \<ge> level_value TASHKEEL_REMOVED"
  "\<not> level_value ALIF_UNIFIED \<ge> level_value HAMZA_UNIFIED"
  "level_value ALIF_UNIFIED \<ge> level_value ALIF_UNIFIED"
  "\<not> level_value ALIF_UNIFIED \<ge> level_value YA_UNIFIED"
  "level_value YA_UNIFIED \<ge> level_value TASHKEEL_REMOVED"
  "level_value YA_UNIFIED \<ge> level_value HAMZA_UNIFIED"
  "level_value YA_UNIFIED \<ge> level_value ALIF_UNIFIED"
  "level_value YA_UNIFIED \<ge> level_value YA_UNIFIED"
  "\<not> level_value FULL \<ge> level_value TASHKEEL_REMOVED"
  "\<not> level_value FULL \<ge> level_value HAMZA_UNIFIED"
  "level_value FULL \<ge> level_value ALIF_UNIFIED"
  "\<not> level_value FULL \<ge> level_value YA_UNIFIED"
  by (simp_all add: less_char_def less_eq_char_def)

lemma normalize_NONE: "normalize t NONE = t"
  by (simp add: normalize_def)

lemma normalize_TASHKEEL_REMOVED:
  "normalize t TASHKEEL_REMOVED = unify_alif (unify_hamza (remove_tashkeel t))"
  unfolding normalize_def Let_def by (simp only: cmp_levels if_True if_False) simp

lemma normalize_HAMZA_UNIFIED:
  "normalize t HAMZA_UNIFIED = unify_alif (unify_hamza t)"
  unfolding normalize_def Let_def by (simp only: cmp_levels if_True if_False) simp

lemma normalize_ALIF_UNIFIED:
  "normalize t ALIF_UNIFIED = unify_alif t"
  unfolding normalize_def Let_def by (simp only: cmp_levels if_True if_False) simp

lemma normalize_YA_UNIFIED:
  "normalize t YA_UNIFIED = unify_ya (unify_alif (unify_hamza (remove_tashkeel t)))"
  unfolding normalize_def Let_def by (simp only: cmp_levels if_True if_False) simp

lemma normalize_FULL:
  "normalize t FULL = full_normalize (unify_alif t)"
  unfolding normalize_def Let_def by (simp only: cmp_levels if_True if_False) simp

lemmas normalize_levels = normalize_NONE normalize_TASHKEEL_REMOVED normalize_HAMZA_UNIFIED
  normalize_ALIF_UNIFIED normalize_YA_UNIFIED normalize_FULL

lemma str_replace_append:
  "str_replace old new (a @ b) = str_replace old new a @ str_replace old new b"
  by (simp add: str_replace_def)

lemma replace_items_append:
  "replace_items m (a @ b) = replace_items m a @ replace_items m b"
  by (induction m arbitrary: a b) (auto simp: str_replace_append)

lemma full_normalize_append:
  "full_normalize (a @ b) = full_normalize a @ full_normalize b"
  by (simp add: full_normalize_def str_replace_append)

lemma normalize_append:
  "normalize (a @ b) level = normalize a level @ normalize b level"
  by (cases level)
     (simp_all add: normalize_levels unify_alif_def unify_hamza_def unify_ya_def
        remove_tashkeel_def replace_items_append full_normalize_append)

lemma normalize_Nil: "normalize [] level = []"
  by (cases level)
     (simp_all add: normalize_levels unify_alif_def unify_hamza_def unify_ya_def
        remove_tashkeel_def full_normalize_def str_replace_def HAMZA_MAP_def ALIF_MAP_def YA_MAP_def)

text \<open>What each step does to a one-character text.\<close>

lemma remove_tashkeel_single:
  "remove_tashkeel [c] = (if c \<in> set TASHKEEL then [] else [c])"
  by (simp add: remove_tashkeel_def)

lemma unify_hamza_single:
  "unify_hamza [c] = (if c \<in> {0x0623, 0x0625, 0x0624, 0x0626, 0x0622} then [0x0621] else [c])"
  by (simp add: unify_hamza_def HAMZA_MAP_def str_replace_def)

lemma unify_alif_single:
  "unify_alif [c] = (if c \<in> {0x0622, 0x0623, 0x0625, 0x0671, 0x0670} then [0x0627] else [c])"
  by (simp add: unify_alif_def ALIF_MAP_def str_replace_def)

lemma unify_ya_single:
  "unify_ya [c] = (if c \<in> {0x0649, 0x0626} then [0x064A] else [c])"
  by (simp add: unify_ya_def YA_MAP_def str_replace_def)

lemma full_normalize_single:
  "full_normalize [c] =
     (if c = TATWEEL \<or> c \<in> set SMALL_LETTERS \<or> c \<in> set WAQF_SIGNS then [] else [c])"
  by (simp add: full_normalize_def str_replace_def)

lemma steps_Nil:
  "remove_tashkeel [] = []" "unify_hamza [] = []" "unify_alif [] = []" "unify_ya [] = []"
  "full_normalize [] = []"
  by (simp_all add: remove_tashkeel_def unify_hamza_def unify_alif_def unify_ya_def
        full_normalize_def str_replace_def HAMZA_MAP_def ALIF_MAP_def YA_MAP_def)

lemmas single_steps = remove_tashkeel_single unify_hamza_single unify_alif_single
  unify_ya_single full_normalize_single steps_Nil

lemma idem_TASHKEEL_REMOVED:
  "normalize (normalize [c] TASHKEEL_REMOVED) TASHKEEL_REMOVED = normalize [c] TASHKEEL_REMOVED"
  by (simp add: normalize_TASHKEEL_REMOVED single_steps TASHKEEL_def)

lemma idem_HAMZA_UNIFIED:
  "normalize (normalize [c] HAMZA_UNIFIED) HAMZA_UNIFIED = normalize [c] HAMZA_UNIFIED"
  by (simp add: normalize_HAMZA_UNIFIED single_steps)

lemma idem_ALIF_UNIFIED:
  "normalize (normalize [c] ALIF_UNIFIED) ALIF_UNIFIED = normalize [c] ALIF_UNIFIED"
  by (simp add: normalize_ALIF_UNIFIED single_steps)

lemma idem_YA_UNIFIED:
  "normalize (normalize [c] YA_UNIFIED) YA_UNIFIED = normalize [c] YA_UNIFIED"
  by (simp add: normalize_YA_UNIFIED single_steps TASHKEEL_def)

lemma idem_FULL:
  "normalize (normalize [c] FULL) FULL = normalize [c] FULL"
  by (simp add: normalize_FULL single_steps TATWEEL_def SMALL_LETTERS_def WAQF_SIGNS_def)

lemma normalize_single_idem:
  "normalize (normalize [c] level) level = normalize [c] level"
  by (cases level)
     (simp_all only: normalize_NONE idem_TASHKEEL_REMOVED idem_HAMZA_UNIFIED idem_ALIF_UNIFIED
        idem_YA_UNIFIED idem_FULL)

text \<open>
  Claim C3. For every text and every level, normalising an already normalised text at
  the same level changes nothing.
\<close>

theorem normalize_idempotent:
  "normalize (normalize t level) level = normalize t level"
proof (induction t)
  case Nil
  show ?case by (simp add: normalize_Nil)
next
  case (Cons c t)
  have "normalize (c # t) level = normalize [c] level @ normalize t level"
    using normalize_append [of "[c]" t level] by simp
  then have "normalize (normalize (c # t) level) level
      = normalize (normalize [c] level) level @ normalize (normalize t level) level"
    by (simp only: normalize_append)
  also have "\<dots> = normalize [c] level @ normalize t level"
    by (simp only: normalize_single_idem Cons.IH)
  also have "\<dots> = normalize (c # t) level"
    using normalize_append [of "[c]" t level] by simp
  finally show ?case .
qed

text \<open>
  Claim C1. The claim is that \<open>normalize\<close> at level L applies the steps of all levels up
  to L in increasing order. The code compares the string values of the levels, so it
  differs from the cascade: at FULL and at HAMZA\_UNIFIED a fatha (U+064E) survives
  although the cascade removes it, and at TASHKEEL\_REMOVED an alif with hamza (U+0623)
  is already unified to hamza although the cascade leaves it.
\<close>

theorem normalize_is_not_the_cascade:
  "normalize [0x064E] FULL = [0x064E]
   \<and> normalize_cascade_spec [0x064E] FULL = []
   \<and> normalize [0x064E] HAMZA_UNIFIED = [0x064E]
   \<and> normalize_cascade_spec [0x064E] HAMZA_UNIFIED = []
   \<and> normalize [0x0623] TASHKEEL_REMOVED = [0x0621]
   \<and> normalize_cascade_spec [0x0623] TASHKEEL_REMOVED = [0x0623]"
  by (simp add: normalize_levels single_steps normalize_cascade_spec_def TASHKEEL_def
        TATWEEL_def SMALL_LETTERS_def WAQF_SIGNS_def)

section \<open>Properties of the entity matcher\<close>

subsection \<open>Stripping and prefixes\<close>

lemma strip_append: "strip_tashkeel (a @ b) = strip_tashkeel a @ strip_tashkeel b"
  by (simp add: strip_tashkeel_def)

lemma strip_idem: "strip_tashkeel (strip_tashkeel a) = strip_tashkeel a"
  by (simp add: strip_tashkeel_def)

lemma strip_length: "length (strip_tashkeel a) \<le> length a"
  by (simp add: strip_tashkeel_def)

lemma strip_fixed_if_same_length:
  "length (strip_tashkeel a) = length a \<Longrightarrow> strip_tashkeel a = a"
  unfolding strip_tashkeel_def by (metis filter_True length_filter_less linorder_neq_iff)

lemma startswith_split: "startswith w p \<Longrightarrow> w = p @ drop (length p) w"
  unfolding startswith_def by (metis append_take_drop_id)

lemma startswith_append: "startswith (p @ r) p"
  by (simp add: startswith_def)

text \<open>Two prefixes of one word: the shorter one is a prefix of the longer one.\<close>

lemma two_prefixes:
  assumes "startswith w a" and "startswith w b" and "length a \<le> length b"
  shows "b = a @ drop (length a) b"
proof -
  from assms(1) have a: "a = take (length a) w" by (simp add: startswith_def)
  from assms(2) have b: "b = take (length b) w" by (simp add: startswith_def)
  have "take (length a) b = take (length a) (take (length b) w)" using b by simp
  also have "\<dots> = take (length a) w" using assms(3) by (simp add: min_def)
  also have "\<dots> = a" using a by simp
  finally have "take (length a) b = a" .
  then show ?thesis by (metis append_take_drop_id)
qed

text \<open>
  Two forms that qualify for the same word differ by tashkeel only: the longer one is
  the shorter one followed by diacritics.
\<close>

lemma qualifying_forms_nested:
  assumes "qualifies base w a" and "qualifies base w b" and "length a \<le> length b"
  shows "b = a @ drop (length a) b \<and> strip_tashkeel (drop (length a) b) = []"
proof -
  let ?x = "drop (length a) b"
  from assms have sa: "startswith w a" and sb: "startswith w b"
    and ra: "strip_tashkeel (drop (length a) w) = strip_tashkeel base"
    and rb: "strip_tashkeel (drop (length b) w) = strip_tashkeel base"
    by (simp_all add: qualifies_def)
  from two_prefixes [OF sa sb assms(3)] have b: "b = a @ ?x" .
  from startswith_split [OF sb] have "w = b @ drop (length b) w" .
  with b have "w = a @ (?x @ drop (length b) w)" by (metis append_assoc)
  then have "drop (length a) w = ?x @ drop (length b) w"
    by (metis append_eq_conv_conj)
  then have "strip_tashkeel (drop (length a) w)
               = strip_tashkeel ?x @ strip_tashkeel (drop (length b) w)"
    by (simp add: strip_append)
  with ra rb have "strip_tashkeel base = strip_tashkeel ?x @ strip_tashkeel base" by simp
  then have "strip_tashkeel ?x = []" by simp
  with b show ?thesis by simp
qed

subsection \<open>The loop body\<close>

lemma try_prefix_Some:
  assumes "try_prefix self w P = Some (a, r)"
  shows "(a = P \<or> (a = strip_tashkeel P \<and> \<not> startswith w P))
         \<and> qualifies (base_word self) w a \<and> r = drop (length a) w"
  using assms
  by (auto simp: try_prefix_def Let_def qualifies_def split: if_splits)

text \<open>
  If the written or the stripped form of a prefix qualifies, the loop body succeeds
  on that prefix, with an actual prefix at least as long.
\<close>

lemma qualifying_form_found:
  assumes "q = P \<or> q = strip_tashkeel P" and "qualifies (base_word self) w q"
  shows "\<exists>a r. try_prefix self w P = Some (a, r) \<and> length q \<le> length a"
proof (cases "startswith w P")
  case False
  with assms have q: "q = strip_tashkeel P" by (auto simp: qualifies_def)
  with assms(2) False show ?thesis
    by (simp add: try_prefix_def Let_def qualifies_def)
next
  case True
  have len: "length q \<le> length P" using assms(1) strip_length [of P] by auto
  from assms(2) have sq: "startswith w q" by (simp add: qualifies_def)
  let ?x = "drop (length q) P"
  from two_prefixes [OF sq True len] have P: "P = q @ ?x" .
  have "strip_tashkeel ?x = []"
  proof (cases "q = P")
    case True
    then show ?thesis by (simp add: strip_tashkeel_def)
  next
    case False
    with assms(1) have sp: "strip_tashkeel P = q" by simp
    then have fixed: "strip_tashkeel q = q" by (metis strip_idem)
    from P have "strip_tashkeel P = strip_tashkeel q @ strip_tashkeel ?x"
      by (metis strip_append)
    then have "q = q @ strip_tashkeel ?x" unfolding sp fixed .
    then show ?thesis by simp
  qed
  moreover from startswith_split [OF True] P
  have "w = q @ (?x @ drop (length P) w)" by (metis append_assoc)
  then have "drop (length q) w = ?x @ drop (length P) w" by (metis append_eq_conv_conj)
  then have "strip_tashkeel (drop (length q) w)
              = strip_tashkeel ?x @ strip_tashkeel (drop (length P) w)"
    by (simp add: strip_append)
  ultimately have "strip_tashkeel (drop (length P) w) = strip_tashkeel (drop (length q) w)"
    by simp
  with assms(2) have "strip_tashkeel (drop (length P) w) = strip_tashkeel (base_word self)"
    by (simp add: qualifies_def)
  with True len show ?thesis by (simp add: try_prefix_def Let_def)
qed

subsection \<open>The loop\<close>

lemma prefix_loop_None:
  "prefix_loop self w ps = None \<longleftrightarrow> (\<forall>P \<in> set ps. try_prefix self w P = None)"
  by (induction ps) (auto split: option.splits)

lemma prefix_loop_Some:
  "prefix_loop self w ps = Some found \<Longrightarrow>
   \<exists>ys P zs. ps = ys @ P # zs \<and> (\<forall>y \<in> set ys. try_prefix self w y = None)
             \<and> try_prefix self w P = Some found"
proof (induction ps)
  case Nil
  then show ?case by simp
next
  case (Cons p ps)
  show ?case
  proof (cases "try_prefix self w p")
    case None
    with Cons.prems have "prefix_loop self w ps = Some found" by simp
    from Cons.IH [OF this] obtain ys P zs where
      "ps = ys @ P # zs" "\<forall>y \<in> set ys. try_prefix self w y = None"
      "try_prefix self w P = Some found" by blast
    with None have "p # ps = (p # ys) @ P # zs
        \<and> (\<forall>y \<in> set (p # ys). try_prefix self w y = None)
        \<and> try_prefix self w P = Some found" by simp
    then show ?thesis by blast
  next
    case (Some f)
    with Cons.prems have "f = found" by simp
    with Some have "p # ps = [] @ p # ps \<and> (\<forall>y \<in> set []. try_prefix self w y = None)
        \<and> try_prefix self w p = Some found" by simp
    then show ?thesis by blast
  qed
qed

text \<open>In the sorted list, nothing after a prefix is longer than it.\<close>

lemma sorted_by_len_desc_later:
  assumes "sorted_by_len_desc xs = ys @ P # zs" and "Q \<in> set zs"
  shows "length Q \<le> length P"
proof -
  have "sorted (map (\<lambda>p. - int (length p)) (sorted_by_len_desc xs))"
    by (simp add: sorted_by_len_desc_def)
  with assms(1) have "sorted (map (\<lambda>p. - int (length p)) (ys @ P # zs))" by simp
  then have "\<forall>z \<in> set zs. - int (length P) \<le> - int (length z)"
    by (simp add: sorted_append)
  with assms(2) show ?thesis by auto
qed

lemma set_sorted_by_len_desc: "set (sorted_by_len_desc xs) = set xs"
  by (simp add: sorted_by_len_desc_def)

subsection \<open>Facts about the table of prefixes\<close>

lemma diacritized_forms_distinct:
  "distinct (map strip_tashkeel (filter (\<lambda>P. strip_tashkeel P \<noteq> P) ALL_PREFIXES))"
  by (simp add: ALL_PREFIXES_def MATCHABLE_PREFIXES_def COMBINED_PREFIXES_def strip_tashkeel_def)

lemma diacritized_form_unique:
  assumes "P \<in> set ALL_PREFIXES" "Q \<in> set ALL_PREFIXES"
    and "strip_tashkeel P \<noteq> P" "strip_tashkeel Q \<noteq> Q"
    and "strip_tashkeel P = strip_tashkeel Q"
  shows "P = Q"
proof -
  let ?D = "filter (\<lambda>P. strip_tashkeel P \<noteq> P) ALL_PREFIXES"
  from diacritized_forms_distinct have "inj_on strip_tashkeel (set ?D)"
    by (simp only: distinct_map)
  moreover from assms have "P \<in> set ?D" "Q \<in> set ?D" by simp_all
  ultimately show ?thesis using assms(5) by (meson inj_onD)
qed

lemma clitic_forms_have_letters:
  "\<forall>q \<in> set clitic_forms. strip_tashkeel q \<noteq> []"
  by (simp add: clitic_forms_def ALL_PREFIXES_def MATCHABLE_PREFIXES_def COMBINED_PREFIXES_def
        strip_tashkeel_def)

lemma clitic_form_cases:
  "q \<in> set clitic_forms \<longleftrightarrow> (\<exists>P \<in> set ALL_PREFIXES. q = P \<or> q = strip_tashkeel P)"
  by (auto simp: clitic_forms_def)

subsection \<open>The first success of the loop is the longest qualifying form\<close>

lemma first_success_longest:
  assumes order: "set iteration_order = set ALL_PREFIXES"
    and loop: "prefix_loop self w (sorted_by_len_desc iteration_order) = Some (a, r)"
    and Q: "Q \<in> set ALL_PREFIXES"
    and tq: "try_prefix self w Q = Some (a', r')"
  shows "length a' \<le> length a"
proof (rule ccontr)
  assume "\<not> length a' \<le> length a"
  then have less: "length a < length a'" by simp
  from prefix_loop_Some [OF loop] obtain ys P zs where
    split: "sorted_by_len_desc iteration_order = ys @ P # zs"
    and before: "\<forall>y \<in> set ys. try_prefix self w y = None"
    and tp: "try_prefix self w P = Some (a, r)" by blast
  have "P \<in> set (sorted_by_len_desc iteration_order)" by (simp add: split)
  then have P: "P \<in> set ALL_PREFIXES" using order by (simp add: set_sorted_by_len_desc)
  from try_prefix_Some [OF tp] have
    a_form: "a = P \<or> (a = strip_tashkeel P \<and> \<not> startswith w P)"
    and qa: "qualifies (base_word self) w a" by simp_all
  from try_prefix_Some [OF tq] have
    a'_form: "a' = Q \<or> (a' = strip_tashkeel Q \<and> \<not> startswith w Q)"
    and qa': "qualifies (base_word self) w a'" by simp_all
  let ?x = "drop (length a) a'"
  from qualifying_forms_nested [OF qa qa'] less
  have nested: "a' = a @ ?x" and dia: "strip_tashkeel ?x = []" by simp_all
  from nested have "strip_tashkeel a' = strip_tashkeel a @ strip_tashkeel ?x"
    by (metis strip_append)
  with dia have same: "strip_tashkeel a' = strip_tashkeel a" by simp
  have "length (strip_tashkeel a') \<le> length a" using same strip_length [of a] by simp
  with less have changed: "strip_tashkeel a' \<noteq> a'" by auto
  have a'Q: "a' = Q"
  proof (rule ccontr)
    assume "a' \<noteq> Q"
    with a'_form have "a' = strip_tashkeel Q" by simp
    then have "strip_tashkeel a' = a'" by (metis strip_idem)
    with changed show False by simp
  qed
  have PQ: "P \<noteq> Q"
  proof
    assume "P = Q"
    with tp tq have "a = a'" by simp
    with less show False by simp
  qed
  from a_form show False
  proof
    assume aP: "a = P"
    have "Q \<in> set (ys @ P # zs)" using Q order split [symmetric]
      by (simp add: set_sorted_by_len_desc)
    moreover have "Q \<notin> set ys" using before tq by auto
    ultimately have "Q \<in> set zs" using PQ by auto
    from sorted_by_len_desc_later [OF split this] have "length Q \<le> length P" .
    with less aP a'Q show False by simp
  next
    assume "a = strip_tashkeel P \<and> \<not> startswith w P"
    then have aS: "a = strip_tashkeel P" and nP: "\<not> startswith w P" by simp_all
    from qa have "startswith w a" by (simp add: qualifies_def)
    with nP have "a \<noteq> P" by auto
    with aS have cP: "strip_tashkeel P \<noteq> P" by simp
    from changed a'Q have cQ: "strip_tashkeel Q \<noteq> Q" by simp
    from aS have "strip_tashkeel a = strip_tashkeel P" by (metis strip_idem)
    with same a'Q have "strip_tashkeel P = strip_tashkeel Q" by simp
    from diacritized_form_unique [OF P Q cP cQ this] PQ show False by simp
  qed
qed

text \<open>A word equal to the canonical word up to diacritics has no qualifying clitic form.\<close>

lemma plain_word_no_clitic:
  assumes "strip_tashkeel w = strip_tashkeel base" and "q \<in> set clitic_forms"
  shows "\<not> qualifies base w q"
proof
  assume q: "qualifies base w q"
  then have "w = q @ drop (length q) w" by (simp add: qualifies_def startswith_split)
  then have "strip_tashkeel w = strip_tashkeel q @ strip_tashkeel (drop (length q) w)"
    by (metis strip_append)
  with q assms(1) have "strip_tashkeel base = strip_tashkeel q @ strip_tashkeel base"
    by (simp add: qualifies_def)
  then have "strip_tashkeel q = []" by simp
  with assms(2) clitic_forms_have_letters show False by blast
qed

lemma base_word_init: "base_word (EntityVariantMatcher_init base) = base"
  by (simp add: EntityVariantMatcher_init_def)

subsection \<open>The matcher on concrete words\<close>

lemma sorted_all_prefixes:
  "sorted_by_len_desc ALL_PREFIXES =
     [[0x0648, 0x064E, 0x0628, 0x0650], [0x0641, 0x064E, 0x0628, 0x0650],
      [0x0648, 0x064E, 0x0644, 0x0650], [0x0641, 0x064E, 0x0644, 0x0650],
      [0x0648, 0x064E, 0x0643, 0x064E], [0x0641, 0x064E, 0x0643, 0x064E],
      [0x0623, 0x064E, 0x0628, 0x0650], [0x0623, 0x064E, 0x0641, 0x064E],
      [0x0623, 0x064E, 0x0648, 0x064E],
      [0x064A, 0x064E, 0x0627],
      [0x0628, 0x0650], [0x0628, 0x0640], [0x0648, 0x064E], [0x0648, 0x0640],
      [0x0641, 0x064E], [0x0641, 0x0640], [0x0644, 0x0650], [0x0644, 0x0640],
      [0x0643, 0x064E], [0x0643, 0x0640], [0x0623, 0x064E], [0x064A, 0x0627],
      [0x0648, 0x0628], [0x0641, 0x0628], [0x0648, 0x0644], [0x0641, 0x0644],
      [0x0648, 0x0643], [0x0641, 0x0643], [0x0623, 0x0628], [0x0623, 0x0641],
      [0x0623, 0x0648],
      [0x0628], [0x0648], [0x0641], [0x0644], [0x0643], [0x0623]]"
  by (simp add: sorted_by_len_desc_def ALL_PREFIXES_def MATCHABLE_PREFIXES_def
        COMBINED_PREFIXES_def)

lemma matches_plain:
  "matches (EntityVariantMatcher_init [0x0627, 0x0644, 0x0644, 0x0647])
     [0x0627, 0x0644, 0x0644, 0x0647]"
  by (simp add: matches_def EntityVariantMatcher_init_def generate_all_forms_def)

lemma matches_wa_bi:
  "matches (EntityVariantMatcher_init [0x0627, 0x0644, 0x0644, 0x0647])
     [0x0648, 0x064E, 0x0628, 0x0650, 0x0627, 0x0644, 0x0644, 0x0647]"
  by (simp add: matches_def EntityVariantMatcher_init_def generate_all_forms_def
        prefixed_forms_def MATCHABLE_PREFIXES_def COMBINED_PREFIXES_def strip_tashkeel_def)

lemma matches_wa_b:
  "matches (EntityVariantMatcher_init [0x0627, 0x0644, 0x0644, 0x0647])
     [0x0648, 0x064E, 0x0628, 0x0627, 0x0644, 0x0644, 0x0647]"
  by (simp add: matches_def EntityVariantMatcher_init_def generate_all_forms_def
        prefixed_forms_def MATCHABLE_PREFIXES_def COMBINED_PREFIXES_def strip_tashkeel_def
        startswith_def ARTICLE_PREFIXES_def)

lemma extract_wa_bi:
  "extract_prefix ALL_PREFIXES (EntityVariantMatcher_init [0x0627, 0x0644, 0x0644, 0x0647])
     [0x0648, 0x064E, 0x0628, 0x0650, 0x0627, 0x0644, 0x0644, 0x0647]
   = Some ([0x0648, 0x064E, 0x0628, 0x0650], [0x0627, 0x0644, 0x0644, 0x0647])"
  by (simp add: extract_prefix_def matches_wa_bi sorted_all_prefixes try_prefix_def
        startswith_def base_word_init strip_tashkeel_def)

lemma extract_plain:
  "extract_prefix ALL_PREFIXES (EntityVariantMatcher_init [0x0627, 0x0644, 0x0644, 0x0647])
     [0x0627, 0x0644, 0x0644, 0x0647]
   = Some ([], [0x0627, 0x0644, 0x0644, 0x0647])"
  by (simp add: extract_prefix_def matches_plain sorted_all_prefixes try_prefix_def
        startswith_def base_word_init strip_tashkeel_def)

lemma extract_wa_b:
  "extract_prefix ALL_PREFIXES (EntityVariantMatcher_init [0x0627, 0x0644, 0x0644, 0x0647])
     [0x0648, 0x064E, 0x0628, 0x0627, 0x0644, 0x0644, 0x0647]
   = Some ([], [0x0648, 0x064E, 0x0628, 0x0627, 0x0644, 0x0644, 0x0647])"
  by (simp add: extract_prefix_def matches_wa_b sorted_all_prefixes try_prefix_def
        startswith_def base_word_init strip_tashkeel_def)

lemma empty_not_clitic: "[] \<notin> set clitic_forms"
  by (simp add: clitic_forms_def ALL_PREFIXES_def MATCHABLE_PREFIXES_def COMBINED_PREFIXES_def
        strip_tashkeel_def)

text \<open>
  Claim C9, as the code has it. For a word the matcher accepts, and whatever order the
  set of prefixes is iterated in: if some clitic form (a single or combined prefix, with
  or without its diacritics) begins the word and leaves the canonical word up to
  diacritics, \<open>extract_prefix\<close> returns such a form with its remainder, and no
  qualifying form is longer; if the word is the canonical word up to diacritics, it
  returns the empty prefix and the word.
\<close>

theorem extract_prefix_longest_clitic:
  assumes order: "set iteration_order = set ALL_PREFIXES"
    and accepted: "matches (EntityVariantMatcher_init base) word"
  shows "((\<exists>q \<in> set clitic_forms. qualifies base word q) \<longrightarrow>
            (\<exists>p r. extract_prefix iteration_order (EntityVariantMatcher_init base) word
                     = Some (p, r)
                   \<and> p \<in> set clitic_forms \<and> qualifies base word p \<and> word = p @ r
                   \<and> (\<forall>q \<in> set clitic_forms. qualifies base word q
                         \<longrightarrow> length q \<le> length p)))
       \<and> (strip_tashkeel word = strip_tashkeel base \<longrightarrow>
            extract_prefix iteration_order (EntityVariantMatcher_init base) word
              = Some ([], word))"
proof (intro conjI impI)
  let ?self = "EntityVariantMatcher_init base"
  let ?ps = "sorted_by_len_desc iteration_order"
  assume "\<exists>q \<in> set clitic_forms. qualifies base word q"
  then obtain q0 where q0: "q0 \<in> set clitic_forms" "qualifies base word q0" by blast
  then obtain Q0 where Q0: "Q0 \<in> set ALL_PREFIXES" "q0 = Q0 \<or> q0 = strip_tashkeel Q0"
    by (auto simp: clitic_form_cases)
  from qualifying_form_found [of q0 Q0 ?self word] Q0(2) q0(2)
  obtain a0 r0 where "try_prefix ?self word Q0 = Some (a0, r0)"
    by (auto simp: base_word_init)
  moreover have "Q0 \<in> set ?ps" using Q0(1) order by (simp add: set_sorted_by_len_desc)
  ultimately have "prefix_loop ?self word ?ps \<noteq> None"
    by (auto simp: prefix_loop_None)
  then obtain p r where loop: "prefix_loop ?self word ?ps = Some (p, r)" by auto
  with accepted have result: "extract_prefix iteration_order ?self word = Some (p, r)"
    by (simp add: extract_prefix_def)
  from prefix_loop_Some [OF loop] obtain ys P zs where
    split: "?ps = ys @ P # zs" and tp: "try_prefix ?self word P = Some (p, r)" by blast
  have P: "P \<in> set ?ps" by (simp add: split)
  from try_prefix_Some [OF tp] have
    p_form: "p = P \<or> p = strip_tashkeel P"
    and qp: "qualifies base word p" and r: "r = drop (length p) word"
    by (auto simp: base_word_init)
  from P order have "P \<in> set ALL_PREFIXES" by (simp add: set_sorted_by_len_desc)
  with p_form have p_in: "p \<in> set clitic_forms" by (auto simp: clitic_form_cases)
  from qp r have whole: "word = p @ r" by (simp add: qualifies_def startswith_split)
  have longest: "\<forall>q \<in> set clitic_forms. qualifies base word q \<longrightarrow> length q \<le> length p"
  proof (intro ballI impI)
    fix q assume q: "q \<in> set clitic_forms" "qualifies base word q"
    then obtain Q where Q: "Q \<in> set ALL_PREFIXES" "q = Q \<or> q = strip_tashkeel Q"
      by (auto simp: clitic_form_cases)
    from qualifying_form_found [of q Q ?self word] Q(2) q(2)
    obtain a' r' where tq: "try_prefix ?self word Q = Some (a', r')"
      and le: "length q \<le> length a'"
      by (auto simp: base_word_init)
    from first_success_longest [OF order loop Q(1) tq] le
    show "length q \<le> length p" by simp
  qed
  from result p_in qp whole longest
  show "\<exists>p r. extract_prefix iteration_order ?self word = Some (p, r)
           \<and> p \<in> set clitic_forms \<and> qualifies base word p \<and> word = p @ r
           \<and> (\<forall>q \<in> set clitic_forms. qualifies base word q \<longrightarrow> length q \<le> length p)"
    by blast
next
  let ?self = "EntityVariantMatcher_init base"
  let ?ps = "sorted_by_len_desc iteration_order"
  assume plain: "strip_tashkeel word = strip_tashkeel base"
  have "\<forall>P \<in> set ?ps. try_prefix ?self word P = None"
  proof
    fix P assume "P \<in> set ?ps"
    with order have P: "P \<in> set ALL_PREFIXES" by (simp add: set_sorted_by_len_desc)
    show "try_prefix ?self word P = None"
    proof (cases "try_prefix ?self word P")
      case None
      then show ?thesis .
    next
      case (Some found)
      obtain a r where "found = (a, r)" by (cases found)
      with Some have tp: "try_prefix ?self word P = Some (a, r)" by simp
      from try_prefix_Some [OF tp] have "a = P \<or> a = strip_tashkeel P"
        and "qualifies base word a" by (auto simp: base_word_init)
      with P have "a \<in> set clitic_forms" by (auto simp: clitic_form_cases)
      with plain_word_no_clitic [OF plain] \<open>qualifies base word a\<close> show ?thesis by blast
    qed
  qed
  then have "prefix_loop ?self word ?ps = None" by (simp add: prefix_loop_None)
  with accepted show "extract_prefix iteration_order ?self word = Some ([], word)"
    by (simp add: extract_prefix_def)
qed

theorem extract_prefix_longest_clitic_witness:
  "extract_prefix ALL_PREFIXES (EntityVariantMatcher_init [0x0627, 0x0644, 0x0644, 0x0647])
     [0x0648, 0x064E, 0x0628, 0x0650, 0x0627, 0x0644, 0x0644, 0x0647]
     = Some ([0x0648, 0x064E, 0x0628, 0x0650], [0x0627, 0x0644, 0x0644, 0x0647])
   \<and> [0x0648, 0x064E, 0x0628, 0x0650] \<in> set clitic_forms
   \<and> qualifies [0x0627, 0x0644, 0x0644, 0x0647]
        [0x0648, 0x064E, 0x0628, 0x0650, 0x0627, 0x0644, 0x0644, 0x0647]
        [0x0648, 0x064E, 0x0628, 0x0650]
   \<and> extract_prefix ALL_PREFIXES (EntityVariantMatcher_init [0x0627, 0x0644, 0x0644, 0x0647])
        [0x0627, 0x0644, 0x0644, 0x0647]
     = Some ([], [0x0627, 0x0644, 0x0644, 0x0647])"
proof -
  let ?B = "[0x0627, 0x0644, 0x0644, 0x0647] :: str"
  let ?W = "[0x0648, 0x064E, 0x0628, 0x0650, 0x0627, 0x0644, 0x0644, 0x0647] :: str"
  let ?P = "[0x0648, 0x064E, 0x0628, 0x0650] :: str"
  have order: "set ALL_PREFIXES = set ALL_PREFIXES" by (rule refl)
  have "?P \<in> set clitic_forms"
    by (simp add: clitic_forms_def ALL_PREFIXES_def COMBINED_PREFIXES_def)
  moreover have "qualifies ?B ?W ?P"
    by (simp add: qualifies_def startswith_def strip_tashkeel_def)
  ultimately have some: "\<exists>q \<in> set clitic_forms. qualifies ?B ?W q" by blast
  from extract_prefix_longest_clitic [OF order matches_wa_bi] some
  obtain p r where
    "extract_prefix ALL_PREFIXES (EntityVariantMatcher_init ?B) ?W = Some (p, r)"
    and found: "p \<in> set clitic_forms" "qualifies ?B ?W p"
    by blast
  with extract_wa_bi have "p = ?P" by simp
  with found have w1: "?P \<in> set clitic_forms" and w2: "qualifies ?B ?W ?P" by simp_all
  have "strip_tashkeel ?B = strip_tashkeel ?B" by (rule refl)
  with extract_prefix_longest_clitic [OF order matches_plain]
  have w3: "extract_prefix ALL_PREFIXES (EntityVariantMatcher_init ?B) ?B = Some ([], ?B)"
    by blast
  from extract_wa_bi w1 w2 w3 show ?thesis by (intro conjI)
qed

text \<open>
  Claim C9 as stated fails: the canonical word itself is accepted, and the prefix
  returned for it is empty, which is no clitic form; a partly vocalised word (wa with
  its fatha, bi without its kasra, then the canonical word) is accepted too, and is
  returned whole with the empty prefix, although it is not the canonical word up to
  diacritics.
\<close>

theorem extract_prefix_not_always_clitic:
  "matches (EntityVariantMatcher_init [0x0627, 0x0644, 0x0644, 0x0647])
     [0x0627, 0x0644, 0x0644, 0x0647]
   \<and> extract_prefix ALL_PREFIXES (EntityVariantMatcher_init [0x0627, 0x0644, 0x0644, 0x0647])
        [0x0627, 0x0644, 0x0644, 0x0647]
      = Some ([], [0x0627, 0x0644, 0x0644, 0x0647])
   \<and> [] \<notin> set clitic_forms
   \<and> matches (EntityVariantMatcher_init [0x0627, 0x0644, 0x0644, 0x0647])
        [0x0648, 0x064E, 0x0628, 0x0627, 0x0644, 0x0644, 0x0647]
   \<and> extract_prefix ALL_PREFIXES (EntityVariantMatcher_init [0x0627, 0x0644, 0x0644, 0x0647])
        [0x0648, 0x064E, 0x0628, 0x0627, 0x0644, 0x0644, 0x0647]
      = Some ([], [0x0648, 0x064E, 0x0628, 0x0627, 0x0644, 0x0644, 0x0647])
   \<and> strip_tashkeel [0x0648, 0x064E, 0x0628, 0x0627, 0x0644, 0x0644, 0x0647]
      \<noteq> strip_tashkeel [0x0627, 0x0644, 0x0644, 0x0647]"
proof -
  have "strip_tashkeel [0x0648, 0x064E, 0x0628, 0x0627, 0x0644, 0x0644, 0x0647]
      \<noteq> strip_tashkeel [0x0627, 0x0644, 0x0644, 0x0647]"
    by (simp add: strip_tashkeel_def)
  with matches_plain extract_plain empty_not_clitic matches_wa_b extract_wa_b
  show ?thesis by (intro conjI)
qed

end
